theory Spec2Isabelle
  imports Main "HOL-Library.Char_ord"
begin

section \<open>Password strength meter: the embedding of password_strength.c\<close>

text \<open>
  A C string is modelled by the list of its characters before the terminating NUL
  (\<^typ>\<open>string\<close>, whose characters are the bytes 0 to 255). Reading the string at the
  index of its length yields the terminator; reading further is outside the string and
  is an error of the model. A counter of type \<open>int\<close> is a natural number that must not
  pass \<open>INT_MAX\<close>: the increment that would is the error \<open>SignedOverflow\<close>. A value of
  type \<open>size_t\<close> is a natural number; the one subtraction of the program on that type
  wraps modulo \<open>2 ^ 64\<close>.
\<close>

datatype error = OutOfBounds | SignedOverflow

definition INT_MAX :: nat where
  "INT_MAX = 2147483647"

definition NUL :: char where
  "NUL = CHR 0x00"

definition strlen :: "string \<Rightarrow> nat" where
  "strlen s = length s"

definition char_at :: "string \<Rightarrow> nat \<Rightarrow> char option" where
  "char_at s i =
     (if i < length s then Some (s ! i)
      else if i = length s then Some NUL
      else None)"

definition size_sub :: "nat \<Rightarrow> nat \<Rightarrow> nat" where
  "size_sub a b = nat ((int a - int b) mod 2 ^ 64)"

definition and_then :: "error + 'a \<Rightarrow> ('a \<Rightarrow> error + 'b) \<Rightarrow> error + 'b" where
  "and_then r f = (case r of Inl e \<Rightarrow> Inl e | Inr x \<Rightarrow> f x)"

subsection \<open>The classifiers of ctype.h, in the C locale\<close>

text \<open>
  The program never sets a locale, so the classifiers are those of the C locale: they
  hold on the ASCII ranges only, and on no byte above 127. (The source passes a plain
  \<open>char\<close> to them. Where \<open>char\<close> is signed, such a byte arrives as a negative value,
  on which the C standard leaves the classifiers undefined; the model takes the answer
  of the C locale for the byte.) \<open>tolower\<close> returns the \<open>int\<close> value of the folded
  character, as the library function does.
\<close>

definition isupper :: "char \<Rightarrow> bool" where
  "isupper c = (CHR ''A'' \<le> c \<and> c \<le> CHR ''Z'')"

definition islower :: "char \<Rightarrow> bool" where
  "islower c = (CHR ''a'' \<le> c \<and> c \<le> CHR ''z'')"

definition isdigit :: "char \<Rightarrow> bool" where
  "isdigit c = (CHR ''0'' \<le> c \<and> c \<le> CHR ''9'')"

definition isalpha :: "char \<Rightarrow> bool" where
  "isalpha c = (isupper c \<or> islower c)"

definition isalnum :: "char \<Rightarrow> bool" where
  "isalnum c = (isalpha c \<or> isdigit c)"

definition tolower :: "char \<Rightarrow> nat" where
  "tolower c = (if isupper c then of_char c + 32 else of_char c)"

subsection \<open>The predicates over a password\<close>

text \<open>\<open>containsString\<close> walks the string by pointer; its counter stops at 4.\<close>

fun containsString_loop :: "string \<Rightarrow> nat \<Rightarrow> bool" where
  "containsString_loop [] consecutiveLetters = False"
| "containsString_loop (c # pwd) consecutiveLetters =
     (if isalpha c then
        (if 4 \<le> consecutiveLetters + 1 then True
         else containsString_loop pwd (consecutiveLetters + 1))
      else containsString_loop pwd 0)"

definition containsString :: "string \<Rightarrow> bool" where
  "containsString pwd = containsString_loop pwd 0"

function hasUpper_loop :: "string \<Rightarrow> nat \<Rightarrow> error + bool" where
  "hasUpper_loop pwd i =
     (if i < strlen pwd then
        (if isupper (pwd ! i) then Inr True
         else if i < INT_MAX then hasUpper_loop pwd (i + 1)
         else Inl SignedOverflow)
      else Inr False)"
  by pat_completeness auto
termination
  by (relation "measure (\<lambda>(pwd, i). strlen pwd - i)") auto

definition hasUpper :: "string \<Rightarrow> error + bool" where
  "hasUpper pwd = hasUpper_loop pwd 0"

function hasDigit_loop :: "string \<Rightarrow> nat \<Rightarrow> error + bool" where
  "hasDigit_loop pwd i =
     (if i < strlen pwd then
        (if isdigit (pwd ! i) then Inr True
         else if i < INT_MAX then hasDigit_loop pwd (i + 1)
         else Inl SignedOverflow)
      else Inr False)"
  by pat_completeness auto
termination
  by (relation "measure (\<lambda>(pwd, i). strlen pwd - i)") auto

definition hasDigit :: "string \<Rightarrow> error + bool" where
  "hasDigit pwd = hasDigit_loop pwd 0"

function hasLower_loop :: "string \<Rightarrow> nat \<Rightarrow> error + bool" where
  "hasLower_loop pwd i =
     (if i < strlen pwd then
        (if islower (pwd ! i) then Inr True
         else if i < INT_MAX then hasLower_loop pwd (i + 1)
         else Inl SignedOverflow)
      else Inr False)"
  by pat_completeness auto
termination
  by (relation "measure (\<lambda>(pwd, i). strlen pwd - i)") auto

definition hasLower :: "string \<Rightarrow> error + bool" where
  "hasLower pwd = hasLower_loop pwd 0"

definition hasMinimumLength :: "string \<Rightarrow> bool" where
  "hasMinimumLength pwd = (8 \<le> strlen pwd)"

function isAlphanumericOnly_loop :: "string \<Rightarrow> nat \<Rightarrow> error + bool" where
  "isAlphanumericOnly_loop pwd i =
     (if i < strlen pwd then
        (if \<not> isalnum (pwd ! i) then Inr False
         else if i < INT_MAX then isAlphanumericOnly_loop pwd (i + 1)
         else Inl SignedOverflow)
      else Inr True)"
  by pat_completeness auto
termination
  by (relation "measure (\<lambda>(pwd, i). strlen pwd - i)") auto

definition isAlphanumericOnly :: "string \<Rightarrow> error + bool" where
  "isAlphanumericOnly pwd = isAlphanumericOnly_loop pwd 0"

text \<open>
  The inner loop of \<open>containsUsername\<close> returns the value of \<open>j\<close> at which it stops;
  the outer loop compares its counter with \<open>strlen(password) - strlen(username)\<close>,
  computed on \<open>size_t\<close>.
\<close>

function containsUsername_inner :: "string \<Rightarrow> string \<Rightarrow> nat \<Rightarrow> nat \<Rightarrow> error + nat" where
  "containsUsername_inner username password i j =
     (if j < strlen username then
        (if INT_MAX < i + j then Inl SignedOverflow
         else case char_at password (i + j) of
                None \<Rightarrow> Inl OutOfBounds
              | Some c \<Rightarrow>
                  if tolower c \<noteq> tolower (username ! j) then Inr j
                  else if j < INT_MAX then containsUsername_inner username password i (j + 1)
                  else Inl SignedOverflow)
      else Inr j)"
  by pat_completeness auto
termination
  by (relation "measure (\<lambda>(username, password, i, j). strlen username - j)") auto

function containsUsername_outer :: "string \<Rightarrow> string \<Rightarrow> nat \<Rightarrow> error + bool" where
  "containsUsername_outer username password i =
     (if i \<le> size_sub (strlen password) (strlen username) then
        (case containsUsername_inner username password i 0 of
           Inl e \<Rightarrow> Inl e
         | Inr j \<Rightarrow>
             if j = strlen username then Inr True
             else if i < INT_MAX then containsUsername_outer username password (i + 1)
             else Inl SignedOverflow)
      else Inr False)"
  by pat_completeness auto
termination
  by (relation "measure (\<lambda>(username, password, i). INT_MAX - i)") auto

definition containsUsername :: "string \<Rightarrow> string \<Rightarrow> error + bool" where
  "containsUsername username password =
     (if strlen username = 0 then Inr False
      else containsUsername_outer username password 0)"

subsection \<open>The two policies\<close>

definition isStrongPassword :: "string \<Rightarrow> string \<Rightarrow> error + bool" where
  "isStrongPassword username password =
     (if \<not> hasMinimumLength password then Inr False
      else and_then (hasUpper password) (\<lambda>upper.
        if \<not> upper then Inr False
        else and_then (hasLower password) (\<lambda>lower.
          if \<not> lower then Inr False
          else and_then (hasDigit password) (\<lambda>digit.
            if \<not> digit then Inr False
            else and_then (isAlphanumericOnly password) (\<lambda>alnum.
              if \<not> alnum then Inr False
              else if \<not> containsString password then Inr False
              else and_then (containsUsername username password) (\<lambda>found.
                if found then Inr False else Inr True))))))"

definition isStrongDefaultPassword :: "string \<Rightarrow> string \<Rightarrow> error + bool" where
  "isStrongDefaultPassword username password =
     (if 15 < strlen password then Inr False
      else and_then (hasUpper password) (\<lambda>upper.
        if \<not> upper then Inr False
        else and_then (hasLower password) (\<lambda>lower.
          if \<not> lower then Inr False
          else and_then (hasDigit password) (\<lambda>digit.
            if \<not> digit then Inr False
            else and_then (isAlphanumericOnly password) (\<lambda>alnum.
              if \<not> alnum then Inr False else Inr True)))))"

subsection \<open>The generator\<close>

text \<open>
  The sequence of values that \<open>rand()\<close> returns after the seeding is the parameter
  \<open>rnd\<close>; the state of the generator is the number \<open>n\<close> of values drawn so far.
  The loop has no bound in the source: the model returns \<open>None\<close> when it runs forever.
\<close>

definition validCharacters :: string where
  "validCharacters = ''abcdefghijklmnopqrstuvwxyzABCDEFGHIJKLMNOPQRSTUVWXYZ0123456789''"

definition numValidChars :: nat where
  "numValidChars = strlen validCharacters"

partial_function (option) generate_loop ::
  "string \<Rightarrow> (nat \<Rightarrow> nat) \<Rightarrow> nat \<Rightarrow> (error + string) option" where
  "generate_loop username rnd n =
     (let passwordLength = rnd n mod 15 + 1;
          default_password =
            map (\<lambda>i. validCharacters ! (rnd (n + 1 + i) mod numValidChars)) [0..<passwordLength]
      in case isStrongDefaultPassword username default_password of
           Inl e \<Rightarrow> Some (Inl e)
         | Inr ok \<Rightarrow>
             if ok then Some (Inr default_password)
             else generate_loop username rnd (n + 1 + passwordLength))"

definition generateDefaultPassword :: "string \<Rightarrow> (nat \<Rightarrow> nat) \<Rightarrow> (error + string) option" where
  "generateDefaultPassword username rnd = generate_loop username rnd 0"

subsection \<open>Notions of the specification\<close>

text \<open>
  \<open>letter_run k pwd\<close>: the string holds a contiguous run of at least \<open>k\<close> letters.
  \<open>contains_folded username password\<close>: some window of the password equals the
  username after case folding. \<open>generated_ok u r\<close>: the result \<open>r\<close> of the generator
  is a password of 1 to 15 characters that the Default policy accepts.
\<close>

definition letter_run :: "nat \<Rightarrow> string \<Rightarrow> bool" where
  "letter_run k pwd =
     (\<exists>xs ys zs. pwd = xs @ ys @ zs \<and> k \<le> length ys \<and> (\<forall>c\<in>set ys. isalpha c))"

definition window_matches :: "string \<Rightarrow> string \<Rightarrow> nat \<Rightarrow> bool" where
  "window_matches username password i =
     (\<forall>k<length username. tolower (password ! (i + k)) = tolower (username ! k))"

definition contains_folded :: "string \<Rightarrow> string \<Rightarrow> bool" where
  "contains_folded username password =
     (\<exists>i. i + length username \<le> length password \<and> window_matches username password i)"

definition generated_ok :: "string \<Rightarrow> error + string \<Rightarrow> bool" where
  "generated_ok u r =
     (\<exists>g. r = Inr g \<and> isStrongDefaultPassword u g = Inr True \<and> 1 \<le> length g \<and> length g \<le> 15)"

section \<open>Properties\<close>

declare hasUpper_loop.simps [simp del]
declare hasDigit_loop.simps [simp del]
declare hasLower_loop.simps [simp del]
declare isAlphanumericOnly_loop.simps [simp del]
declare containsUsername_inner.simps [simp del]
declare containsUsername_outer.simps [simp del]

lemmas ctype_defs = isupper_def islower_def isdigit_def isalpha_def isalnum_def tolower_def

lemmas loop_eval =
  hasUpper_loop.simps hasDigit_loop.simps hasLower_loop.simps isAlphanumericOnly_loop.simps
  containsUsername_inner.simps containsUsername_outer.simps

lemmas pred_defs =
  hasUpper_def hasDigit_def hasLower_def isAlphanumericOnly_def hasMinimumLength_def
  containsString_def containsUsername_def strlen_def char_at_def size_sub_def INT_MAX_def
  NUL_def and_then_def

subsection \<open>The scanning loops\<close>

text \<open>
  On a string of at most \<open>INT_MAX\<close> characters no counter overflows, and each loop
  computes the quantifier it is written for.
\<close>

lemma ex_index_step:
  "\<not> P i \<Longrightarrow> (\<exists>k. Suc i \<le> k \<and> k < n \<and> P k) = (\<exists>k. i \<le> k \<and> k < (n::nat) \<and> P k)"
  by (metis Suc_leD Suc_leI le_neq_implies_less)

lemma ex_index_set: "(\<exists>k. 0 \<le> k \<and> k < length xs \<and> P (xs ! k)) = (\<exists>x\<in>set xs. P x)"
  by (metis in_set_conv_nth le0)

lemma hasUpper_loop_eq:
  "strlen pwd \<le> INT_MAX \<Longrightarrow>
   hasUpper_loop pwd i = Inr (\<exists>k. i \<le> k \<and> k < length pwd \<and> isupper (pwd ! k))"
proof (induction pwd i rule: hasUpper_loop.induct)
  case (1 pwd i)
  show ?case
  proof (cases "i < strlen pwd \<and> \<not> isupper (pwd ! i)")
    case True
    with "1.prems" have lt: "i < INT_MAX" by simp
    have "hasUpper_loop pwd i = hasUpper_loop pwd (i + 1)"
      using True lt by (subst hasUpper_loop.simps) simp
    also have "\<dots> = Inr (\<exists>k. i + 1 \<le> k \<and> k < length pwd \<and> isupper (pwd ! k))"
      using "1.IH" True lt "1.prems" by simp
    finally show ?thesis
      using True by (simp add: ex_index_step [where P = "\<lambda>k. isupper (pwd ! k)"])
  next
    case False
    then show ?thesis
      by (subst hasUpper_loop.simps) (auto simp: strlen_def)
  qed
qed

lemma hasUpper_eq:
  "strlen pwd \<le> INT_MAX \<Longrightarrow> hasUpper pwd = Inr (\<exists>c\<in>set pwd. isupper c)"
  unfolding hasUpper_def by (simp add: hasUpper_loop_eq ex_index_set [symmetric])

lemma hasDigit_loop_eq:
  "strlen pwd \<le> INT_MAX \<Longrightarrow>
   hasDigit_loop pwd i = Inr (\<exists>k. i \<le> k \<and> k < length pwd \<and> isdigit (pwd ! k))"
proof (induction pwd i rule: hasDigit_loop.induct)
  case (1 pwd i)
  show ?case
  proof (cases "i < strlen pwd \<and> \<not> isdigit (pwd ! i)")
    case True
    with "1.prems" have lt: "i < INT_MAX" by simp
    have "hasDigit_loop pwd i = hasDigit_loop pwd (i + 1)"
      using True lt by (subst hasDigit_loop.simps) simp
    also have "\<dots> = Inr (\<exists>k. i + 1 \<le> k \<and> k < length pwd \<and> isdigit (pwd ! k))"
      using "1.IH" True lt "1.prems" by simp
    finally show ?thesis
      using True by (simp add: ex_index_step [where P = "\<lambda>k. isdigit (pwd ! k)"])
  next
    case False
    then show ?thesis
      by (subst hasDigit_loop.simps) (auto simp: strlen_def)
  qed
qed

lemma hasDigit_eq:
  "strlen pwd \<le> INT_MAX \<Longrightarrow> hasDigit pwd = Inr (\<exists>c\<in>set pwd. isdigit c)"
  unfolding hasDigit_def by (simp add: hasDigit_loop_eq ex_index_set [symmetric])

lemma hasLower_loop_eq:
  "strlen pwd \<le> INT_MAX \<Longrightarrow>
   hasLower_loop pwd i = Inr (\<exists>k. i \<le> k \<and> k < length pwd \<and> islower (pwd ! k))"
proof (induction pwd i rule: hasLower_loop.induct)
  case (1 pwd i)
  show ?case
  proof (cases "i < strlen pwd \<and> \<not> islower (pwd ! i)")
    case True
    with "1.prems" have lt: "i < INT_MAX" by simp
    have "hasLower_loop pwd i = hasLower_loop pwd (i + 1)"
      using True lt by (subst hasLower_loop.simps) simp
    also have "\<dots> = Inr (\<exists>k. i + 1 \<le> k \<and> k < length pwd \<and> islower (pwd ! k))"
      using "1.IH" True lt "1.prems" by simp
    finally show ?thesis
      using True by (simp add: ex_index_step [where P = "\<lambda>k. islower (pwd ! k)"])
  next
    case False
    then show ?thesis
      by (subst hasLower_loop.simps) (auto simp: strlen_def)
  qed
qed

lemma hasLower_eq:
  "strlen pwd \<le> INT_MAX \<Longrightarrow> hasLower pwd = Inr (\<exists>c\<in>set pwd. islower c)"
  unfolding hasLower_def by (simp add: hasLower_loop_eq ex_index_set [symmetric])

lemma isAlphanumericOnly_loop_eq:
  "strlen pwd \<le> INT_MAX \<Longrightarrow>
   isAlphanumericOnly_loop pwd i = Inr (\<not> (\<exists>k. i \<le> k \<and> k < length pwd \<and> \<not> isalnum (pwd ! k)))"
proof (induction pwd i rule: isAlphanumericOnly_loop.induct)
  case (1 pwd i)
  show ?case
  proof (cases "i < strlen pwd \<and> isalnum (pwd ! i)")
    case True
    with "1.prems" have lt: "i < INT_MAX" by simp
    have "isAlphanumericOnly_loop pwd i = isAlphanumericOnly_loop pwd (i + 1)"
      using True lt by (subst isAlphanumericOnly_loop.simps) simp
    also have "\<dots> = Inr (\<not> (\<exists>k. i + 1 \<le> k \<and> k < length pwd \<and> \<not> isalnum (pwd ! k)))"
      using "1.IH" True lt "1.prems" by simp
    finally show ?thesis
      using True by (simp add: ex_index_step [where P = "\<lambda>k. \<not> isalnum (pwd ! k)"])
  next
    case False
    then show ?thesis
      by (subst isAlphanumericOnly_loop.simps) (auto simp: strlen_def)
  qed
qed

lemma isAlphanumericOnly_eq:
  "strlen pwd \<le> INT_MAX \<Longrightarrow> isAlphanumericOnly pwd = Inr (\<forall>c\<in>set pwd. isalnum c)"
proof -
  assume "strlen pwd \<le> INT_MAX"
  then have "isAlphanumericOnly pwd = Inr (\<not> (\<exists>c\<in>set pwd. \<not> isalnum c))"
    unfolding isAlphanumericOnly_def
    by (simp only: isAlphanumericOnly_loop_eq ex_index_set [where P = "\<lambda>c. \<not> isalnum c", symmetric])
  then show ?thesis by simp
qed

text \<open>
  The six predicates other than \<open>containsUsername\<close> return a boolean on every string
  that an \<open>int\<close> can index, and no byte above 127 is in a character class.
\<close>

lemma scanning_predicates_total:
  assumes "length pwd \<le> INT_MAX"
  shows "(\<exists>b. hasUpper pwd = Inr b) \<and> (\<exists>b. hasLower pwd = Inr b) \<and> (\<exists>b. hasDigit pwd = Inr b)
    \<and> (\<exists>b. isAlphanumericOnly pwd = Inr b)"
proof -
  from assms have fits: "strlen pwd \<le> INT_MAX"
    by (simp add: strlen_def)
  show ?thesis
    by (simp add: hasUpper_eq [OF fits] hasLower_eq [OF fits] hasDigit_eq [OF fits]
        isAlphanumericOnly_eq [OF fits])
qed

lemma non_ascii_unclassified:
  assumes "128 \<le> (of_char c :: nat)"
  shows "\<not> isupper c \<and> \<not> islower c \<and> \<not> isdigit c \<and> \<not> isalpha c \<and> \<not> isalnum c"
  using assms by (simp add: ctype_defs less_eq_char_def)

subsection \<open>The policies\<close>

lemma short_fits_int: "strlen p \<le> 15 \<Longrightarrow> strlen p \<le> INT_MAX"
  by (simp add: INT_MAX_def)

lemma default_policy_eq:
  "isStrongDefaultPassword u p =
     Inr (length p \<le> 15 \<and> (\<exists>c\<in>set p. isupper c) \<and> (\<exists>c\<in>set p. islower c) \<and>
          (\<exists>c\<in>set p. isdigit c) \<and> (\<forall>c\<in>set p. isalnum c))"
proof (cases "15 < strlen p")
  case True
  then show ?thesis by (simp add: isStrongDefaultPassword_def strlen_def)
next
  case False
  then have fits: "strlen p \<le> INT_MAX" by (simp add: short_fits_int)
  from False have "length p \<le> 15" by (simp add: strlen_def)
  then show ?thesis
    using False
    by (simp add: isStrongDefaultPassword_def and_then_def hasUpper_eq [OF fits]
        hasLower_eq [OF fits] hasDigit_eq [OF fits] isAlphanumericOnly_eq [OF fits])
qed

text \<open>
  C2: \<open>isStrongDefaultPassword\<close> returns true exactly on the passwords of at most 15
  characters that hold an uppercase letter, a lowercase letter and a digit and hold
  alphanumeric characters only; the username has no influence on the result.
\<close>

theorem isStrongDefaultPassword_iff:
  "isStrongDefaultPassword u p =
     Inr (length p \<le> 15 \<and> (\<exists>c\<in>set p. isupper c) \<and> (\<exists>c\<in>set p. islower c) \<and>
          (\<exists>c\<in>set p. isdigit c) \<and> (\<forall>c\<in>set p. isalnum c))
   \<and> isStrongDefaultPassword u1 p = isStrongDefaultPassword u2 p"
  by (simp only: default_policy_eq)

theorem isStrongDefaultPassword_iff_witness:
  "isStrongDefaultPassword ''bob'' ''aA0'' = Inr True
   \<and> isStrongDefaultPassword ''bob'' ''aA0!'' = Inr False
   \<and> isStrongDefaultPassword ''bob'' ''aA0aA0aA0aA0aA0a'' = Inr False"
  using isStrongDefaultPassword_iff [of "''bob''" "''aA0''"]
    isStrongDefaultPassword_iff [of "''bob''" "''aA0!''"]
    isStrongDefaultPassword_iff [of "''bob''" "''aA0aA0aA0aA0aA0a''"]
  by (simp add: ctype_defs)

text \<open>
  C9: a password that \<open>isStrongPassword\<close> accepts and that has at most 15 characters is
  accepted by \<open>isStrongDefaultPassword\<close> too.
\<close>

theorem strong_short_is_default:
  "isStrongPassword u p = Inr True \<Longrightarrow> length p \<le> 15 \<Longrightarrow> isStrongDefaultPassword u p = Inr True"
  by (auto simp: isStrongPassword_def isStrongDefaultPassword_def and_then_def strlen_def
      split: if_splits sum.splits)

theorem strong_short_is_default_witness:
  "isStrongPassword ''alice'' ''Passw0rd'' = Inr True \<and> length ''Passw0rd'' \<le> 15
   \<and> isStrongDefaultPassword ''alice'' ''Passw0rd'' = Inr True"
proof -
  have strong: "isStrongPassword ''alice'' ''Passw0rd'' = Inr True"
    by (simp add: isStrongPassword_def pred_defs loop_eval ctype_defs)
  have short: "length ''Passw0rd'' \<le> 15"
    by simp
  from strong short strong_short_is_default [OF strong short] show ?thesis
    by simp
qed

text \<open>
  C10: both policies reject the empty password, whatever the username:
  \<open>isAlphanumericOnly\<close> holds of it, \<open>hasUpper\<close> does not.
\<close>

theorem empty_password_rejected:
  "isStrongPassword u [] = Inr False \<and> isStrongDefaultPassword u [] = Inr False
   \<and> isAlphanumericOnly [] = Inr True \<and> hasUpper [] = Inr False"
  by (simp add: isStrongPassword_def isStrongDefaultPassword_def pred_defs loop_eval)

subsection \<open>The username check\<close>

text \<open>
  The subtraction on \<open>size_t\<close> is exact when the username is not longer than the
  password and wraps around otherwise. In the first case the two loops compute the
  case-insensitive substring search; in the second the inner loop stops at the
  terminator of the password at the latest in each round that starts inside the
  password, and the round after those reads outside.
\<close>

lemma int_less_2p64: "n < 2 ^ 64 \<Longrightarrow> int n < 2 ^ 64"
  by (metis of_nat_less_iff of_nat_numeral of_nat_power)

lemma size_sub_le: "b \<le> a \<Longrightarrow> a < 2 ^ 64 \<Longrightarrow> size_sub a b = a - b"
proof -
  assume le: "b \<le> a" and small: "a < 2 ^ 64"
  have "a - b < 2 ^ 64"
    by (rule less_imp_diff_less [OF small])
  then have "int (a - b) < 2 ^ 64"
    by (rule int_less_2p64)
  moreover have "0 \<le> int (a - b)"
    by (rule of_nat_0_le_iff)
  ultimately have "int (a - b) mod 2 ^ 64 = int (a - b)"
    by (rule mod_pos_pos_trivial [rotated])
  moreover have "int a - int b = int (a - b)"
    using le by (rule of_nat_diff [symmetric])
  ultimately show ?thesis
    unfolding size_sub_def by (simp only: nat_int)
qed

lemma INT_MAX_less_2p64: "n \<le> INT_MAX \<Longrightarrow> n < 2 ^ 64"
  by (simp add: INT_MAX_def)

lemma inner_in_range:
  assumes "j \<le> strlen u" and "i + strlen u \<le> strlen p" and "strlen p \<le> INT_MAX"
  shows "\<exists>j'. containsUsername_inner u p i j = Inr j' \<and> j \<le> j' \<and> j' \<le> strlen u \<and>
      (\<forall>k. j \<le> k \<and> k < j' \<longrightarrow> tolower (p ! (i + k)) = tolower (u ! k)) \<and>
      (j' < strlen u \<longrightarrow> tolower (p ! (i + j')) \<noteq> tolower (u ! j'))"
  using assms
proof (induction u p i j rule: containsUsername_inner.induct)
  case (1 username password i j)
  show ?case
  proof (cases "j < strlen username")
    case False
    with "1.prems" have "j = strlen username" by simp
    then show ?thesis
      by (subst containsUsername_inner.simps) simp
  next
    case True
    with "1.prems" have no_ovf: "\<not> INT_MAX < i + j" and j_ok: "j < INT_MAX"
      and rd: "char_at password (i + j) = Some (password ! (i + j))"
      by (auto simp: char_at_def strlen_def)
    show ?thesis
    proof (cases "tolower (password ! (i + j)) = tolower (username ! j)")
      case False
      with True no_ovf rd have "containsUsername_inner username password i j = Inr j"
        by (subst containsUsername_inner.simps) simp
      with True False show ?thesis by simp
    next
      case same: True
      have step: "containsUsername_inner username password i j =
          containsUsername_inner username password i (j + 1)"
        using True no_ovf rd same j_ok by (subst containsUsername_inner.simps) simp
      from True have "j + 1 \<le> strlen username" by simp
      from "1.IH" [OF True no_ovf rd _ j_ok this "1.prems"(2) "1.prems"(3)] same
      obtain j' where j': "containsUsername_inner username password i (j + 1) = Inr j'"
        "j + 1 \<le> j'" "j' \<le> strlen username"
        "\<forall>k. j + 1 \<le> k \<and> k < j' \<longrightarrow> tolower (password ! (i + k)) = tolower (username ! k)"
        "j' < strlen username \<longrightarrow> tolower (password ! (i + j')) \<noteq> tolower (username ! j')"
        by auto
      have "\<forall>k. j \<le> k \<and> k < j' \<longrightarrow> tolower (password ! (i + k)) = tolower (username ! k)"
      proof (intro allI impI)
        fix k assume "j \<le> k \<and> k < j'"
        then consider "k = j" | "j + 1 \<le> k \<and> k < j'" by linarith
        then show "tolower (password ! (i + k)) = tolower (username ! k)"
          using same j'(4) by cases auto
      qed
      with j' step show ?thesis by auto
    qed
  qed
qed


lemma inner_window:
  assumes "i + strlen u \<le> strlen p" and "strlen p \<le> INT_MAX"
  shows "\<exists>j'. containsUsername_inner u p i 0 = Inr j' \<and> (j' = strlen u) = window_matches u p i"
proof -
  from inner_in_range [where j = 0, OF _ assms]
  obtain j' where j': "containsUsername_inner u p i 0 = Inr j'" "j' \<le> strlen u"
    "\<forall>k. k < j' \<longrightarrow> tolower (p ! (i + k)) = tolower (u ! k)"
    "j' < strlen u \<longrightarrow> tolower (p ! (i + j')) \<noteq> tolower (u ! j')"
    by auto
  have "(j' = strlen u) = window_matches u p i"
  proof
    assume "j' = strlen u"
    with j'(3) show "window_matches u p i"
      by (simp add: window_matches_def strlen_def)
  next
    assume "window_matches u p i"
    then have "\<not> j' < strlen u"
      using j'(4) by (auto simp: window_matches_def strlen_def)
    with j'(2) show "j' = strlen u" by simp
  qed
  with j'(1) show ?thesis by blast
qed

lemma outer_in_range:
  assumes nonempty: "0 < strlen u" and fit: "strlen u \<le> strlen p" and small: "strlen p \<le> INT_MAX"
  shows "containsUsername_outer u p i =
    Inr (\<exists>i'. i \<le> i' \<and> i' + length u \<le> length p \<and> window_matches u p i')"
  using assms
proof (induction u p i rule: containsUsername_outer.induct)
  case (1 username password i)
  have bound: "size_sub (strlen password) (strlen username) = strlen password - strlen username"
    using "1.prems" by (intro size_sub_le INT_MAX_less_2p64)
  show ?case
  proof (cases "i \<le> strlen password - strlen username")
    case False
    then have "containsUsername_outer username password i = Inr False"
      by (subst containsUsername_outer.simps) (simp add: bound)
    moreover have "\<not> (\<exists>i'. i \<le> i' \<and> i' + length username \<le> length password
        \<and> window_matches username password i')"
      using False by (auto simp: strlen_def)
    ultimately show ?thesis by simp
  next
    case True
    with "1.prems" have fits: "i + strlen username \<le> strlen password" by simp
    from inner_window [OF fits "1.prems"(3)]
    obtain j' where j': "containsUsername_inner username password i 0 = Inr j'"
      "(j' = strlen username) = window_matches username password i"
      by blast
    show ?thesis
    proof (cases "j' = strlen username")
      case found: True
      with True j' have "containsUsername_outer username password i = Inr True"
        by (subst containsUsername_outer.simps) (simp add: bound)
      moreover have "\<exists>i'. i \<le> i' \<and> i' + length username \<le> length password
          \<and> window_matches username password i'"
        using found j'(2) fits by (auto simp: strlen_def)
      ultimately show ?thesis by simp
    next
      case False
      from True "1.prems" have lt: "i < INT_MAX" by simp
      have bound': "i \<le> size_sub (strlen password) (strlen username)"
        using True bound by simp
      have "containsUsername_outer username password i =
          containsUsername_outer username password (i + 1)"
        using True False j'(1) lt by (subst containsUsername_outer.simps) (simp add: bound)
      also have "\<dots> = Inr (\<exists>i'. i + 1 \<le> i' \<and> i' + length username \<le> length password
          \<and> window_matches username password i')"
        by (rule "1.IH" [OF bound' j'(1) False lt "1.prems"])
      also have "(\<exists>i'. i + 1 \<le> i' \<and> i' + length username \<le> length password
          \<and> window_matches username password i') =
        (\<exists>i'. i \<le> i' \<and> i' + length username \<le> length password
          \<and> window_matches username password i')"
        using False j'(2) by (metis Suc_eq_plus1 Suc_leD Suc_leI le_neq_implies_less)
      finally show ?thesis .
    qed
  qed
qed

lemma containsUsername_in_range:
  assumes "u \<noteq> []" and "length u \<le> length p" and "length p \<le> INT_MAX"
  shows "containsUsername u p = Inr (contains_folded u p)"
proof -
  have "containsUsername u p = containsUsername_outer u p 0"
    using assms(1) by (simp add: containsUsername_def strlen_def)
  also have "\<dots> = Inr (\<exists>i'. 0 \<le> i' \<and> i' + length u \<le> length p \<and> window_matches u p i')"
    using assms by (intro outer_in_range) (simp_all add: strlen_def)
  finally show ?thesis
    by (simp add: contains_folded_def)
qed


lemma of_char_NUL: "(of_char c :: nat) = 0 \<longleftrightarrow> c = NUL"
proof -
  have "(of_char c :: nat) = of_char NUL \<longleftrightarrow> c = NUL"
    by (rule of_char_eq_iff)
  then show ?thesis by (simp add: NUL_def)
qed

lemma tolower_eq_0: "tolower c = 0 \<longleftrightarrow> c = NUL"
  by (auto simp: tolower_def of_char_NUL) (simp_all add: NUL_def isupper_def less_eq_char_def)

lemma size_sub_wrap: "a < b \<Longrightarrow> b \<le> 2 ^ 64 \<Longrightarrow> size_sub a b = 2 ^ 64 - (b - a)"
proof -
  assume lt: "a < b" and small: "b \<le> 2 ^ 64"
  define d where "d = b - a"
  have d: "0 < d" "d \<le> 2 ^ 64" "int a - int b = - int d"
    using lt small by (simp_all add: d_def)
  have "(2::nat) ^ 64 - d < 2 ^ 64"
    using d(1) by simp
  then have "int (2 ^ 64 - d) < 2 ^ 64"
    by (rule int_less_2p64)
  moreover have "0 \<le> int (2 ^ 64 - d)"
    by (rule of_nat_0_le_iff)
  ultimately have "int (2 ^ 64 - d) mod 2 ^ 64 = int (2 ^ 64 - d)"
    by (rule mod_pos_pos_trivial [rotated])
  moreover have "int (2 ^ 64 - d) = 2 ^ 64 - int d"
    using d(2) by (simp only: of_nat_diff of_nat_power of_nat_numeral)
  moreover have "(- int d) mod 2 ^ 64 = (2 ^ 64 - int d) mod 2 ^ 64"
    by (metis mod_add_self2 uminus_add_conv_diff)
  ultimately have "(int a - int b) mod 2 ^ 64 = int (2 ^ 64 - d)"
    using d(3) by (simp only:)
  then show ?thesis
    unfolding size_sub_def d_def by (simp only: nat_int)
qed

lemma inner_stops_at_terminator:
  assumes "NUL \<notin> set u" and "strlen p < strlen u" and "strlen u \<le> INT_MAX"
    and "i + j \<le> strlen p"
  shows "\<exists>j'. containsUsername_inner u p i j = Inr j' \<and> j' < strlen u"
  using assms
proof (induction u p i j rule: containsUsername_inner.induct)
  case (1 username password i j)
  from "1.prems" have j: "j < strlen username" and no_ovf: "\<not> INT_MAX < i + j"
    and j_ok: "j < INT_MAX" by simp_all
  from j "1.prems"(1) have "username ! j \<noteq> NUL"
    by (metis nth_mem strlen_def)
  then have not_nul: "tolower (username ! j) \<noteq> 0"
    by (simp add: tolower_eq_0)
  show ?case
  proof (cases "i + j < strlen password")
    case False
    with "1.prems" have "char_at password (i + j) = Some NUL"
      by (simp add: char_at_def strlen_def)
    moreover have "tolower NUL = 0"
      by (simp add: tolower_eq_0)
    ultimately have "containsUsername_inner username password i j = Inr j"
      using j no_ovf not_nul by (subst containsUsername_inner.simps) simp
    with j show ?thesis by simp
  next
    case True
    then have rd: "char_at password (i + j) = Some (password ! (i + j))"
      by (simp add: char_at_def strlen_def)
    show ?thesis
    proof (cases "tolower (password ! (i + j)) = tolower (username ! j)")
      case False
      with j no_ovf rd have "containsUsername_inner username password i j = Inr j"
        by (subst containsUsername_inner.simps) simp
      with j show ?thesis by simp
    next
      case same: True
      have "containsUsername_inner username password i j =
          containsUsername_inner username password i (j + 1)"
        using j no_ovf rd same j_ok by (subst containsUsername_inner.simps) simp
      moreover from True have "i + (j + 1) \<le> strlen password" by simp
      from "1.IH" [OF j no_ovf rd _ j_ok "1.prems"(1) "1.prems"(2) "1.prems"(3) this] same
      have "\<exists>j'. containsUsername_inner username password i (j + 1) = Inr j' \<and> j' < strlen username"
        by simp
      ultimately show ?thesis by simp
    qed
  qed
qed

lemma outer_overruns:
  assumes "NUL \<notin> set u" and "strlen p < strlen u" and "strlen u \<le> INT_MAX"
    and "i \<le> strlen p + 1"
  shows "containsUsername_outer u p i = Inl OutOfBounds"
  using assms
proof (induction u p i rule: containsUsername_outer.induct)
  case (1 username password i)
  have "strlen username \<le> 2 ^ 64"
    using "1.prems"(3) by (simp add: INT_MAX_def)
  with "1.prems"(2)
  have "size_sub (strlen password) (strlen username) = 2 ^ 64 - (strlen username - strlen password)"
    by (rule size_sub_wrap)
  with "1.prems" have bound: "i \<le> size_sub (strlen password) (strlen username)"
    by (simp add: INT_MAX_def)
  show ?case
  proof (cases "i \<le> strlen password")
    case True
    from inner_stops_at_terminator [OF "1.prems"(1) "1.prems"(2) "1.prems"(3), of i 0] True
    obtain j' where j': "containsUsername_inner username password i 0 = Inr j'"
      "j' \<noteq> strlen username" by auto
    from True "1.prems" have lt: "i < INT_MAX" by simp
    from True have next_ok: "i + 1 \<le> strlen password + 1" by simp
    have "containsUsername_outer username password i =
        containsUsername_outer username password (i + 1)"
      using bound j' lt by (subst containsUsername_outer.simps) simp
    also have "\<dots> = Inl OutOfBounds"
      by (rule "1.IH" [OF bound j'(1) j'(2) lt "1.prems"(1) "1.prems"(2) "1.prems"(3) next_ok])
    finally show ?thesis .
  next
    case False
    with "1.prems" have i: "i = strlen password + 1" by simp
    with "1.prems" have "0 < strlen username" "\<not> INT_MAX < i + 0"
      "char_at password (i + 0) = None"
      by (auto simp: char_at_def strlen_def)
    then have "containsUsername_inner username password i 0 = Inl OutOfBounds"
      by (subst containsUsername_inner.simps) simp
    with bound show ?thesis
      by (subst containsUsername_outer.simps) simp
  qed
qed

lemma containsUsername_overruns:
  assumes "NUL \<notin> set u" and "length p < length u" and "length u \<le> INT_MAX"
  shows "containsUsername u p = Inl OutOfBounds"
proof -
  from assms(2) have "strlen u \<noteq> 0"
    by (auto simp: strlen_def)
  then have "containsUsername u p = containsUsername_outer u p 0"
    by (simp add: containsUsername_def)
  also have "\<dots> = Inl OutOfBounds"
    using assms by (intro outer_overruns) (simp_all add: strlen_def)
  finally show ?thesis .
qed

text \<open>
  C6: the empty username is contained in no password.
\<close>

theorem containsUsername_empty: "containsUsername [] p = Inr False"
  by (simp add: containsUsername_def strlen_def)

text \<open>
  C5, as the spec states it, fails: \<open>nobody\<close> has the windows \<open>nob\<close>, \<open>obo\<close>,
  \<open>bod\<close> and \<open>ody\<close>, none of which is \<open>bob\<close>.
\<close>

theorem containsUsername_nobody_counterexample:
  "\<not> (containsUsername ''Bob'' ''I know bob smith'' = Inr True
      \<and> containsUsername ''Bob'' ''nobody'' = Inr True)"
  by (simp add: pred_defs loop_eval ctype_defs)

text \<open>
  C5, amended: \<open>containsUsername\<close> finds \<open>Bob\<close> in \<open>I know bob smith\<close>, whatever the
  case of the letters, and does not find it in \<open>nobody\<close>.
\<close>

theorem containsUsername_examples:
  "containsUsername ''Bob'' ''I know bob smith'' = Inr True
   \<and> containsUsername ''Bob'' ''nobody'' = Inr False"
  by (simp add: pred_defs loop_eval ctype_defs)

text \<open>
  C4: with a username longer than the password the bound of the outer loop wraps
  around, and the scan reads behind the terminator of the password: for the username
  \<open>ab\<close> and the password \<open>a\<close> the third round reads \<open>password[2]\<close>.
\<close>

theorem containsUsername_longer_username:
  "containsUsername ''ab'' ''a'' = Inl OutOfBounds"
  by (simp add: pred_defs loop_eval ctype_defs)

text \<open>
  C8: \<open>containsUsername\<close> is not total: on the empty password and the username \<open>a\<close>
  the second round reads \<open>password[1]\<close>, behind the terminator.
\<close>

theorem containsUsername_empty_password:
  "containsUsername ''a'' [] = Inl OutOfBounds"
  by (simp add: pred_defs loop_eval ctype_defs)

subsection \<open>The run of letters\<close>

lemma letter_run_Nil: "0 < k \<Longrightarrow> \<not> letter_run k []"
  by (auto simp: letter_run_def)

lemma takeWhile_letter_run: "k \<le> length (takeWhile isalpha cs) \<Longrightarrow> letter_run k cs"
proof -
  assume len: "k \<le> length (takeWhile isalpha cs)"
  have "cs = [] @ takeWhile isalpha cs @ dropWhile isalpha cs"
    by simp
  moreover have "\<forall>c\<in>set (takeWhile isalpha cs). isalpha c"
    by (auto dest: set_takeWhileD)
  ultimately show ?thesis
    unfolding letter_run_def using len by blast
qed

lemma letter_run_Cons:
  assumes "0 < k"
  shows "letter_run k (c # cs) =
    ((isalpha c \<and> k - 1 \<le> length (takeWhile isalpha cs)) \<or> letter_run k cs)"
proof
  assume "letter_run k (c # cs)"
  then obtain xs ys zs where split: "c # cs = xs @ ys @ zs" and len: "k \<le> length ys"
    and letters: "\<forall>c\<in>set ys. isalpha c"
    unfolding letter_run_def by blast
  show "(isalpha c \<and> k - 1 \<le> length (takeWhile isalpha cs)) \<or> letter_run k cs"
  proof (cases xs)
    case Nil
    from len assms obtain y ys' where ys: "ys = y # ys'"
      by (cases ys) auto
    with Nil split have c: "y = c" and cs: "cs = ys' @ zs" by auto
    from letters ys have all: "\<forall>c\<in>set ys'. isalpha c" and "isalpha y" by auto
    then have "takeWhile isalpha cs = ys' @ takeWhile isalpha zs"
      using cs by (simp add: takeWhile_append2)
    then have "k - 1 \<le> length (takeWhile isalpha cs)"
      using len ys by simp
    with c \<open>isalpha y\<close> show ?thesis by simp
  next
    case (Cons x xs')
    with split have "cs = xs' @ ys @ zs" by simp
    with len letters have "letter_run k cs"
      unfolding letter_run_def by blast
    then show ?thesis ..
  qed
next
  assume "(isalpha c \<and> k - 1 \<le> length (takeWhile isalpha cs)) \<or> letter_run k cs"
  then show "letter_run k (c # cs)"
  proof
    assume first: "isalpha c \<and> k - 1 \<le> length (takeWhile isalpha cs)"
    then have "k \<le> length (takeWhile isalpha (c # cs))" by auto
    then show ?thesis by (rule takeWhile_letter_run)
  next
    assume "letter_run k cs"
    then obtain xs ys zs where "cs = xs @ ys @ zs" "k \<le> length ys" "\<forall>c\<in>set ys. isalpha c"
      unfolding letter_run_def by blast
    then have "c # cs = (c # xs) @ ys @ zs \<and> k \<le> length ys \<and> (\<forall>c\<in>set ys. isalpha c)"
      by simp
    then show ?thesis
      unfolding letter_run_def by blast
  qed
qed

lemma containsString_loop_eq:
  "n < 4 \<Longrightarrow>
   containsString_loop cs n = (4 \<le> n + length (takeWhile isalpha cs) \<or> letter_run 4 cs)"
proof (induction cs arbitrary: n)
  case Nil
  then show ?case by (simp add: letter_run_Nil)
next
  case (Cons c cs)
  show ?case
  proof (cases "isalpha c")
    case True
    show ?thesis
    proof (cases "n = 3")
      case True
      with \<open>isalpha c\<close> show ?thesis by simp
    next
      case False
      with Cons.prems have "n + 1 < 4" by simp
      from Cons.IH [OF this] True False Cons.prems show ?thesis
        by (auto simp: letter_run_Cons)
    qed
  next
    case False
    have "containsString_loop cs 0 = letter_run 4 cs"
      using Cons.IH [of 0] takeWhile_letter_run [of 4 cs] by auto
    with False Cons.prems show ?thesis
      by (simp add: letter_run_Cons)
  qed
qed

lemma containsString_letter_run: "containsString p = letter_run 4 p"
  unfolding containsString_def
  using containsString_loop_eq [of 0 p] takeWhile_letter_run [of 4 p] by auto

text \<open>
  C7: \<open>containsString\<close> returns true exactly on the strings that hold a contiguous run
  of at least 4 letters; it does on \<open>ab1cdef\<close> and does not on \<open>ab1cde\<close>.
\<close>

theorem containsString_iff:
  "containsString p = (\<exists>xs ys zs. p = xs @ ys @ zs \<and> 4 \<le> length ys \<and> (\<forall>c\<in>set ys. isalpha c))
   \<and> containsString ''ab1cdef'' = True \<and> containsString ''ab1cde'' = False"
proof -
  have "containsString ''ab1cdef'' = True \<and> containsString ''ab1cde'' = False"
    by (simp add: containsString_def ctype_defs)
  then show ?thesis
    by (simp add: containsString_letter_run [of p] letter_run_def)
qed

theorem containsString_iff_witness:
  "(\<exists>xs ys zs. ''ab1cdef'' = xs @ ys @ zs \<and> 4 \<le> length ys \<and> (\<forall>c\<in>set ys. isalpha c))
   \<and> \<not> (\<exists>xs ys zs. ''ab1cde'' = xs @ ys @ zs \<and> 4 \<le> length ys \<and> (\<forall>c\<in>set ys. isalpha c))"
proof
  have found: "containsString ''ab1cdef''"
    by (simp add: containsString_def ctype_defs)
  from containsString_iff [of "''ab1cdef''"]
  have "containsString ''ab1cdef'' =
    (\<exists>xs ys zs. ''ab1cdef'' = xs @ ys @ zs \<and> 4 \<le> length ys \<and> (\<forall>c\<in>set ys. isalpha c))"
    by (rule conjunct1)
  from iffD1 [OF this found]
  show "\<exists>xs ys zs. ''ab1cdef'' = xs @ ys @ zs \<and> 4 \<le> length ys \<and> (\<forall>c\<in>set ys. isalpha c)" .
next
  have none: "\<not> containsString ''ab1cde''"
    by (simp add: containsString_def ctype_defs)
  from containsString_iff [of "''ab1cde''"]
  have "containsString ''ab1cde'' =
    (\<exists>xs ys zs. ''ab1cde'' = xs @ ys @ zs \<and> 4 \<le> length ys \<and> (\<forall>c\<in>set ys. isalpha c))"
    by (rule conjunct1)
  from none [unfolded this]
  show "\<not> (\<exists>xs ys zs. ''ab1cde'' = xs @ ys @ zs \<and> 4 \<le> length ys \<and> (\<forall>c\<in>set ys. isalpha c))" .
qed

subsection \<open>The generator\<close>

lemma generate_loop_result:
  assumes "generate_loop u rnd n = Some r"
  shows "generated_ok u r"
proof (rule generate_loop.raw_induct [where P = "\<lambda>u rnd n r. generated_ok u r", OF _ assms])
  fix loop :: "string \<Rightarrow> (nat \<Rightarrow> nat) \<Rightarrow> nat \<Rightarrow> (error + string) option"
  fix u rnd n r
  assume IH: "\<And>u rnd n r. loop u rnd n = Some r \<Longrightarrow> generated_ok u r"
  assume step: "(let passwordLength = rnd n mod 15 + 1;
          default_password =
            map (\<lambda>i. validCharacters ! (rnd (n + 1 + i) mod numValidChars)) [0..<passwordLength]
      in case isStrongDefaultPassword u default_password of
           Inl e \<Rightarrow> Some (Inl e)
         | Inr ok \<Rightarrow>
             if ok then Some (Inr default_password)
             else loop u rnd (n + 1 + passwordLength)) = Some r"
  define passwordLength where "passwordLength = rnd n mod 15 + 1"
  define candidate where
    "candidate = map (\<lambda>i. validCharacters ! (rnd (n + 1 + i) mod numValidChars)) [0..<passwordLength]"
  have len: "length candidate = passwordLength"
    by (simp add: candidate_def)
  have bounds: "1 \<le> passwordLength \<and> passwordLength \<le> 15"
    unfolding passwordLength_def by arith
  obtain ok where ok: "isStrongDefaultPassword u candidate = Inr ok"
    using default_policy_eq by blast
  from step have body:
    "(if ok then Some (Inr candidate) else loop u rnd (n + 1 + passwordLength)) = Some r"
    unfolding Let_def passwordLength_def [symmetric] candidate_def [symmetric] ok by simp
  show "generated_ok u r"
  proof (cases ok)
    case True
    with body have "r = Inr candidate" by simp
    with True ok len bounds show ?thesis by (simp add: generated_ok_def)
  next
    case False
    with body have "loop u rnd (n + 1 + passwordLength) = Some r" by simp
    then show ?thesis by (rule IH)
  qed
qed

text \<open>
  C3: whatever the username and the random values, a result of
  \<open>generateDefaultPassword\<close> is a password that \<open>isStrongDefaultPassword\<close> accepts and
  that has between 1 and 15 characters.
\<close>

theorem generateDefaultPassword_result:
  "generateDefaultPassword u rnd = Some r \<Longrightarrow>
   \<exists>g. r = Inr g \<and> isStrongDefaultPassword u g = Inr True \<and> 1 \<le> length g \<and> length g \<le> 15"
  unfolding generateDefaultPassword_def using generate_loop_result [of u rnd 0 r]
  by (simp add: generated_ok_def)

text \<open>
  A run of the generator: with the random values \<open>0, 26, 52, \<dots>\<close> the first candidate
  is \<open>A\<close>, which is rejected, and the second one is returned.
\<close>

theorem generateDefaultPassword_result_witness:
  "generateDefaultPassword [] (\<lambda>n. 26 * n) = Some (Inr ''qQgG6wWm'')
   \<and> (\<exists>g. (Inr ''qQgG6wWm'' :: error + string) = Inr g \<and> isStrongDefaultPassword [] g = Inr True
        \<and> 1 \<le> length g \<and> length g \<le> 15)"
proof -
  have first_candidate: "isStrongDefaultPassword [] ''A'' = Inr False"
    by (simp add: isStrongDefaultPassword_def pred_defs loop_eval ctype_defs)
  have run: "generateDefaultPassword [] (\<lambda>n. 26 * n) = Some (Inr ''qQgG6wWm'')"
    unfolding generateDefaultPassword_def
    apply (subst generate_loop.simps)
    apply (simp add: isStrongDefaultPassword_def pred_defs loop_eval ctype_defs
        validCharacters_def numValidChars_def upt_conv_Cons)
    apply (subst generate_loop.simps)
    apply (simp add: isStrongDefaultPassword_def pred_defs loop_eval ctype_defs
        validCharacters_def numValidChars_def upt_conv_Cons)
    done
  from run generateDefaultPassword_result [OF run] show ?thesis
    by (rule conjI)
qed

subsection \<open>The Strong policy where the username check stays inside the password\<close>

text \<open>
  With an empty username, or one that is not longer than the password, the Strong policy
  is the conjunction that its header comment lists.
\<close>

lemma containsUsername_eq:
  assumes "u = [] \<or> length u \<le> length p" and "length p \<le> INT_MAX"
  shows "containsUsername u p = Inr (u \<noteq> [] \<and> contains_folded u p)"
proof (cases "u = []")
  case True
  then show ?thesis by (simp add: containsUsername_def strlen_def)
next
  case False
  with assms have "containsUsername u p = Inr (contains_folded u p)"
    by (intro containsUsername_in_range) simp_all
  with False show ?thesis by simp
qed

lemma isStrongPassword_in_range:
  assumes "u = [] \<or> length u \<le> length p" and "length p \<le> INT_MAX"
  shows "isStrongPassword u p =
    Inr (8 \<le> length p \<and> (\<exists>c\<in>set p. isupper c) \<and> (\<exists>c\<in>set p. islower c) \<and>
         (\<exists>c\<in>set p. isdigit c) \<and> (\<forall>c\<in>set p. isalnum c) \<and> letter_run 4 p \<and>
         \<not> (u \<noteq> [] \<and> contains_folded u p))"
proof -
  from assms(2) have fits: "strlen p \<le> INT_MAX"
    by (simp add: strlen_def)
  show ?thesis
    unfolding isStrongPassword_def and_then_def hasMinimumLength_def
      hasUpper_eq [OF fits] hasLower_eq [OF fits] hasDigit_eq [OF fits]
      isAlphanumericOnly_eq [OF fits] containsString_letter_run containsUsername_eq [OF assms]
    by (simp add: strlen_def)
qed

lemma isStrongPassword_in_range_example:
  "isStrongPassword ''bob'' ''xBob12345'' = Inr False
   \<and> isStrongPassword ''bob'' ''Passw0rd'' = Inr True
   \<and> isStrongPassword [] ''Passw0rd'' = Inr True
   \<and> isStrongPassword ''bob'' ''Passw0r'' = Inr False"
  by (simp add: isStrongPassword_def pred_defs loop_eval ctype_defs)

text \<open>
  A username longer than the password is outside that range. The password \<open>Passw0rd\<close>
  meets every condition of the Strong policy for the username \<open>verylongusername\<close>:
\<close>

lemma strong_conditions_example:
  "8 \<le> length ''Passw0rd'' \<and> (\<exists>c\<in>set ''Passw0rd''. isupper c)
   \<and> (\<exists>c\<in>set ''Passw0rd''. islower c) \<and> (\<exists>c\<in>set ''Passw0rd''. isdigit c)
   \<and> (\<forall>c\<in>set ''Passw0rd''. isalnum c) \<and> letter_run 4 ''Passw0rd''
   \<and> \<not> contains_folded ''verylongusername'' ''Passw0rd''"
proof -
  have "containsString ''Passw0rd''"
    by (simp add: containsString_def ctype_defs)
  then have "letter_run 4 ''Passw0rd''"
    by (simp only: containsString_letter_run)
  moreover have "\<not> contains_folded ''verylongusername'' ''Passw0rd''"
    by (simp add: contains_folded_def)
  ultimately show ?thesis
    by (simp add: ctype_defs)
qed

text \<open>
  C1: \<open>isStrongPassword\<close> does not return true on the password \<open>Passw0rd\<close> with the
  username \<open>verylongusername\<close>, which the password does not contain: the username
  check reads behind the password.
\<close>

theorem isStrongPassword_longer_username:
  "isStrongPassword ''verylongusername'' ''Passw0rd'' = Inl OutOfBounds"
  by (simp add: isStrongPassword_def pred_defs loop_eval ctype_defs)

end
